theory Spec2Isabelle
  imports Main "HOL-Library.Word"
begin

section \<open>CachedOperation: the deduplicating, bounded cache of helpers.ts\<close>

text \<open>
  The class \<^verbatim>\<open>CachedOperation<U>\<close> has four fields: the producer \<^verbatim>\<open>operation\<close>, the value
  store \<^verbatim>\<open>cached\<close> (a \<^verbatim>\<open>Map<string, U>\<close>), the recency list \<^verbatim>\<open>lru\<close> (a \<^verbatim>\<open>string[]\<close>, least
  recently used first) and \<^verbatim>\<open>inProgressCallbacks\<close> (a \<^verbatim>\<open>Map\<close> from keys to arrays of
  \<^verbatim>\<open>[resolve, reject]\<close> pairs), plus the constructor parameter \<^verbatim>\<open>cacheSize\<close>.

  \<^verbatim>\<open>get\<close> is an \<^verbatim>\<open>async\<close> method run by a single-threaded event loop, so it is modelled as
  the two atomic steps the event loop runs: the synchronous part of a call, up to its first
  \<^verbatim>\<open>await\<close>, and the continuation that runs when the promise returned by \<^verbatim>\<open>operation(t)\<close>
  settles. Every call of \<^verbatim>\<open>get\<close> is numbered in the order of the calls (\<open>next_call\<close>). The
  producer is the environment's: the model records each of its invocations (\<open>invoked\<close>), and
  the outcome of an invocation arrives with the event that settles it. What each call's
  promise settles to is recorded in \<open>settled\<close> (\<open>Inr\<close> a value, \<open>Inl\<close> a rejection).

  The array of callbacks that a producing call allocates is shared: the call keeps it in its
  local variable \<^verbatim>\<open>callbacks\<close> and stores the same array in \<^verbatim>\<open>inProgressCallbacks\<close>, where
  later calls push onto it. The model keeps the arrays in a store (\<open>arrays\<close>) addressed by the
  number of the allocating call; \<open>inProgressCallbacks\<close> holds the address, and a callback
  pair is represented by the number of the waiting call whose promise it settles.

  The type parameter \<^verbatim>\<open>U\<close> is unconstrained, so a value of \<^verbatim>\<open>U\<close> may be \<^verbatim>\<open>undefined\<close>: a value
  is an \<open>'u option\<close>, \<open>None\<close> standing for \<^verbatim>\<open>undefined\<close> and \<open>Some v\<close> for a defined value. The
  value store maps a key to such a value, so \<open>cached s t = Some None\<close> says that the key \<open>t\<close>
  is in the store with the value \<^verbatim>\<open>undefined\<close>, and \<open>cached s t = None\<close> that it is not in the
  store.
\<close>

type_synonym call_id = nat

record ('u, 'e) cached_operation =
  cacheSize :: int
  cached :: "string \<rightharpoonup> 'u option"
  lru :: "string list"
  inProgressCallbacks :: "string \<rightharpoonup> call_id"
  arrays :: "call_id \<Rightarrow> call_id list"
  awaiting :: "call_id \<rightharpoonup> string"
  invoked :: "string list"
  settled :: "call_id \<rightharpoonup> 'e + 'u option"
  next_call :: call_id

text \<open>The constructor: \<^verbatim>\<open>new CachedOperation(operation, cacheSize)\<close>; \<^verbatim>\<open>cacheSize\<close> defaults to 100.\<close>

definition new_cache :: "int \<Rightarrow> ('u, 'e) cached_operation" where
  "new_cache n =
     \<lparr>cacheSize = n, cached = Map.empty, lru = [], inProgressCallbacks = Map.empty,
      arrays = (\<lambda>_. []), awaiting = Map.empty, invoked = [], settled = Map.empty,
      next_call = 0\<rparr>"

definition default_cache :: "('u, 'e) cached_operation" where
  "default_cache = new_cache 100"

text \<open>
  \<^verbatim>\<open>Map.prototype.get\<close>: the value stored under the key, and \<^verbatim>\<open>undefined\<close> when the key is
  absent. A key stored with the value \<^verbatim>\<open>undefined\<close> and an absent key give the same result.
\<close>

definition Map_get :: "('k \<rightharpoonup> 'u option) \<Rightarrow> 'k \<Rightarrow> 'u option" where
  "Map_get m t = (case m t of None \<Rightarrow> None | Some v \<Rightarrow> v)"

text \<open>\<^verbatim>\<open>lru.findIndex(v => v === t)\<close>: the first index holding \<open>t\<close>; \<open>None\<close> is JavaScript's -1.\<close>

fun findIndex :: "string \<Rightarrow> string list \<Rightarrow> nat option" where
  "findIndex t [] = None"
| "findIndex t (v # vs) = (if v = t then Some 0 else map_option Suc (findIndex t vs))"

text \<open>
  \<^verbatim>\<open>lru.push(lru.splice(lru.findIndex(v => v === t), 1)[0])\<close>: the element at the index found
  is cut out and pushed at the end. With index -1, \<^verbatim>\<open>splice(-1, 1)\<close> cuts the last element,
  which is pushed back. (On an empty list \<^verbatim>\<open>splice\<close> cuts nothing and JavaScript pushes
  \<^verbatim>\<open>undefined\<close>; the list is left empty here. Lemma \<open>hit_key_listed\<close> shows that a key
  looked up on this path is always in the list, so neither case of index -1 is ever run.)
\<close>

definition move_to_end :: "string \<Rightarrow> string list \<Rightarrow> string list" where
  "move_to_end t l =
     (case findIndex t l of
        Some i \<Rightarrow> take i l @ drop (Suc i) l @ [l ! i]
      | None \<Rightarrow> (if l = [] then [] else butlast l @ [last l]))"

text \<open>\<^verbatim>\<open>callbacks.forEach(f => f[0](result))\<close> and \<^verbatim>\<open>callbacks.forEach(f => f[1](e))\<close>: every
  waiting call's promise settles to the same outcome.\<close>

definition forEach_settle ::
  "call_id list \<Rightarrow> 'r \<Rightarrow> (call_id \<rightharpoonup> 'r) \<Rightarrow> (call_id \<rightharpoonup> 'r)" where
  "forEach_settle callbacks r m = fold (\<lambda>w m'. m'(w \<mapsto> r)) callbacks m"

text \<open>
  \<^verbatim>\<open>if (this.lru.length > this.cacheSize) { const toRemove = this.lru.shift()!;
  this.cached.delete(toRemove); }\<close>. \<^verbatim>\<open>shift\<close> on an empty array returns \<^verbatim>\<open>undefined\<close> and
  deleting it changes nothing (the condition can hold of an empty list when \<^verbatim>\<open>cacheSize\<close>
  is negative).
\<close>

definition evict :: "('u, 'e) cached_operation \<Rightarrow> ('u, 'e) cached_operation" where
  "evict s =
     (if int (length (lru s)) > cacheSize s then
        (case lru s of
           [] \<Rightarrow> s
         | toRemove # rest \<Rightarrow> s\<lparr>lru := rest, cached := (cached s)(toRemove := None)\<rparr>)
      else s)"

text \<open>
  The synchronous part of \<^verbatim>\<open>get(t)\<close>: a hit when \<^verbatim>\<open>this.cached.get(t) !== undefined\<close>, else a
  wait on a production in flight when \<^verbatim>\<open>this.inProgressCallbacks.get(t) !== undefined\<close> (the
  values of that map are arrays, never \<^verbatim>\<open>undefined\<close>), else the start of a production (the
  producer is invoked before the call suspends).
\<close>

definition get :: "string \<Rightarrow> ('u, 'e) cached_operation \<Rightarrow> ('u, 'e) cached_operation" where
  "get t s0 =
     (let c = next_call s0; s = s0\<lparr>next_call := Suc c\<rparr> in
      case Map_get (cached s) t of
        Some fromCache \<Rightarrow>
          s\<lparr>lru := move_to_end t (lru s),
            settled := (settled s)(c \<mapsto> Inr (Some fromCache))\<rparr>
      | None \<Rightarrow>
          (case inProgressCallbacks s t of
             Some inProgressCallback \<Rightarrow>
               s\<lparr>arrays := (arrays s)(inProgressCallback := arrays s inProgressCallback @ [c])\<rparr>
           | None \<Rightarrow>
               s\<lparr>arrays := (arrays s)(c := []),
                 inProgressCallbacks := (inProgressCallbacks s)(t \<mapsto> c),
                 invoked := invoked s @ [t],
                 awaiting := (awaiting s)(c \<mapsto> t)\<rparr>))"

text \<open>
  The continuation of call \<open>c\<close>, suspended at \<^verbatim>\<open>await this.operation(t)\<close>, when the producer's
  promise settles to \<open>r\<close>: the \<^verbatim>\<open>try\<close> block's remainder on success, the \<^verbatim>\<open>catch\<close> block on
  failure, and the \<^verbatim>\<open>finally\<close> block after either. No call is suspended under a number that
  has no entry in \<open>awaiting\<close>, and the event changes nothing then.
\<close>

definition settle ::
  "call_id \<Rightarrow> 'e + 'u option \<Rightarrow> ('u, 'e) cached_operation \<Rightarrow> ('u, 'e) cached_operation" where
  "settle c r s0 =
     (case awaiting s0 c of
        None \<Rightarrow> s0
      | Some t \<Rightarrow>
          (let callbacks = arrays s0 c;
               s1 = s0\<lparr>awaiting := (awaiting s0)(c := None)\<rparr>;
               s2 =
                 (case r of
                    Inr result \<Rightarrow>
                      (let a = s1\<lparr>settled := forEach_settle callbacks (Inr result) (settled s1)\<rparr>;
                           b = a\<lparr>inProgressCallbacks := (inProgressCallbacks a)(t := None)\<rparr>;
                           d = evict b;
                           e = d\<lparr>lru := lru d @ [t], cached := (cached d)(t \<mapsto> result)\<rparr>
                       in e\<lparr>settled := (settled e)(c \<mapsto> Inr result)\<rparr>)
                  | Inl err \<Rightarrow>
                      (let a = s1\<lparr>settled := forEach_settle callbacks (Inl err) (settled s1)\<rparr>
                       in a\<lparr>settled := (settled a)(c \<mapsto> Inl err)\<rparr>))
           in s2\<lparr>inProgressCallbacks := (inProgressCallbacks s2)(t := None)\<rparr>))"

text \<open>What the event loop runs, one event at a time.\<close>

datatype ('u, 'e) event = Get string | Settle call_id "'e + 'u option"

fun step :: "('u, 'e) event \<Rightarrow> ('u, 'e) cached_operation \<Rightarrow> ('u, 'e) cached_operation" where
  "step (Get t) s = get t s"
| "step (Settle c r) s = settle c r s"

definition run ::
  "('u, 'e) event list \<Rightarrow> ('u, 'e) cached_operation \<Rightarrow> ('u, 'e) cached_operation" where
  "run es s = fold step es s"

text \<open>
  The invariant that every step preserves, whatever the producer resolves to: every key of
  the value store is listed in the recency list; a key is registered in the in-flight map
  with the array of call \<open>a\<close> exactly when call \<open>a\<close> is suspended on the production of that
  key; no call that has not been issued yet is suspended; and a key in production has no
  defined value in the store.
\<close>

definition flight_inv :: "('u, 'e) cached_operation \<Rightarrow> bool" where
  "flight_inv s \<longleftrightarrow>
     dom (cached s) \<subseteq> set (lru s) \<and>
     (\<forall>t a. (inProgressCallbacks s t = Some a) = (awaiting s a = Some t)) \<and>
     (\<forall>c. next_call s \<le> c \<longrightarrow> awaiting s c = None) \<and>
     (\<forall>t a. inProgressCallbacks s t = Some a \<longrightarrow> Map_get (cached s) t = None)"

text \<open>The three properties of the class's own containers.\<close>

definition cache_inv :: "('u, 'e) cached_operation \<Rightarrow> bool" where
  "cache_inv s \<longleftrightarrow>
     dom (cached s) = set (lru s) \<and> distinct (lru s) \<and>
     dom (cached s) \<inter> dom (inProgressCallbacks s) = {}"

text \<open>The containers' properties, and that no key is stored with the value \<^verbatim>\<open>undefined\<close>.\<close>

definition defined_inv :: "('u, 'e) cached_operation \<Rightarrow> bool" where
  "defined_inv s \<longleftrightarrow> cache_inv s \<and> (\<forall>t. cached s t \<noteq> Some None)"

text \<open>An event other than a production that resolves to \<^verbatim>\<open>undefined\<close>.\<close>

fun defined_event :: "('u, 'e) event \<Rightarrow> bool" where
  "defined_event (Get t) = True"
| "defined_event (Settle c (Inl err)) = True"
| "defined_event (Settle c (Inr None)) = False"
| "defined_event (Settle c (Inr (Some v))) = True"

text \<open>
  The numbers of the calls \<^verbatim>\<open>get(k)\<close> among the events \<open>es\<close>, when the next call to be issued
  has number \<open>c\<close>: calls are numbered in the order in which they are issued.
\<close>

fun calls_of :: "string \<Rightarrow> call_id \<Rightarrow> ('u, 'e) event list \<Rightarrow> call_id list" where
  "calls_of k c [] = []"
| "calls_of k c (Get t # es) = (if t = k then [c] else []) @ calls_of k (Suc c) es"
| "calls_of k c (Settle a r # es) = calls_of k c es"

text \<open>Whether an event is the settlement of the production started by call \<open>c\<close>.\<close>

fun settles :: "call_id \<Rightarrow> ('u, 'e) event \<Rightarrow> bool" where
  "settles c (Get t) = False"
| "settles c (Settle a r) = (a = c)"

section \<open>ArchiveFileSystemProvider: the read-only file system over a zip archive\<close>

text \<open>
  The second part of the source defines the classes \<^verbatim>\<open>File\<close> and \<^verbatim>\<open>Directory\<close> and the class
  \<^verbatim>\<open>ArchiveFileSystemProvider\<close>. The provider reads the host's file system, the archive
  library and the clock; these are the parameters \<open>host\<close> of the model. What a call does to
  the world outside the provider is recorded in \<open>world\<close>: the archive paths handed to
  \<^verbatim>\<open>unzipper.Open.file\<close>, in order, and the number of clock readings taken so far. Calls to
  \<^verbatim>\<open>logger.log\<close> are left out.
\<close>

type_synonym bytes = "8 word list"

text \<open>\<^verbatim>\<open>vscode.Uri\<close>: the provider reads \<^verbatim>\<open>path\<close> (the archive on disk) and \<^verbatim>\<open>fragment\<close> (the path
  inside the archive).\<close>

record uri =
  scheme :: string
  authority :: string
  path :: string
  query :: string
  fragment :: string

text \<open>\<^verbatim>\<open>vscode.FileType\<close>.\<close>

datatype file_type = Unknown | FileType_File | FileType_Directory | SymbolicLink

text \<open>
  \<^verbatim>\<open>type Entry = File | Directory\<close>; both classes implement \<^verbatim>\<open>vscode.FileStat\<close> (\<^verbatim>\<open>type\<close>,
  \<^verbatim>\<open>ctime\<close>, \<^verbatim>\<open>mtime\<close>, \<^verbatim>\<open>size\<close>). A \<^verbatim>\<open>Map<string, Entry>\<close> keeps its insertion order, so
  \<^verbatim>\<open>entries\<close> is an association list.
\<close>

datatype entry =
    File (type: file_type) (ctime: nat) (mtime: nat) (size_stat: nat) (name: string) (data: bytes)
  | Directory (type: file_type) (ctime: nat) (mtime: nat) (size_stat: nat) (name: string)
      (entries: "(string \<times> entry) list")

text \<open>
  The errors the provider throws: the \<^verbatim>\<open>vscode.FileSystemError\<close> factories it calls (with the
  uri they are given, if any), the \<^verbatim>\<open>TypeError\<close> of iterating \<^verbatim>\<open>undefined\<close>, and the rejection
  of a promise of the archive library, with its reason. The spec's \<^verbatim>\<open>ReadOnlyViolation\<close> is
  \<open>NoPermissions\<close>, its \<^verbatim>\<open>WrongEntryType\<close> is \<open>FileNotADirectory\<close> or \<open>FileIsADirectory\<close>.
\<close>

datatype fs_error =
    FileNotFound "uri option"
  | FileNotADirectory uri
  | FileIsADirectory uri
  | NoPermissions string
  | TypeError
  | Rejected string

text \<open>An entry of the archive's listing (\<^verbatim>\<open>archive.files\<close>): its recorded \<^verbatim>\<open>path\<close> and what the
  promise returned by its \<^verbatim>\<open>buffer()\<close> settles to.\<close>

record zip_file =
  zip_path :: string
  buffer :: "string + bytes"

text \<open>\<^verbatim>\<open>fs.existsSync\<close>, \<^verbatim>\<open>unzipper.Open.file\<close> (what its promise settles to: the listing, or a
  rejection) and \<^verbatim>\<open>Date.now\<close> (the value of the n-th reading).\<close>

record host =
  existsSync :: "string \<Rightarrow> bool"
  Open_file :: "string \<Rightarrow> string + zip_file list"
  Date_now :: "nat \<Rightarrow> nat"

record world =
  opened :: "string list"
  clock_reads :: nat

text \<open>The constructors of \<^verbatim>\<open>File\<close> and \<^verbatim>\<open>Directory\<close>; each reads the clock twice.\<close>

definition new_File :: "host \<Rightarrow> string \<Rightarrow> bytes \<Rightarrow> world \<Rightarrow> entry \<times> world" where
  "new_File h nm d w =
     (File FileType_File (Date_now h (clock_reads w)) (Date_now h (Suc (clock_reads w)))
        (length d) nm d,
      w\<lparr>clock_reads := Suc (Suc (clock_reads w))\<rparr>)"

definition new_Directory :: "host \<Rightarrow> string \<Rightarrow> world \<Rightarrow> entry \<times> world" where
  "new_Directory h nm w =
     (Directory FileType_Directory (Date_now h (clock_reads w)) (Date_now h (Suc (clock_reads w)))
        0 nm [],
      w\<lparr>clock_reads := Suc (Suc (clock_reads w))\<rparr>)"

text \<open>
  \<^verbatim>\<open>_lookup(uri, silent)\<close>: the archive must exist on disk; it is opened and parsed by
  \<^verbatim>\<open>unzipper.Open.file(uri.path)\<close>, called directly on every lookup; the listing is searched
  for the first entry whose path is the fragment or \<^verbatim>\<open>'src_archive/' + uri.fragment\<close>; the
  result is a new \<^verbatim>\<open>File\<close> named by the fragment, holding the entry's bytes. The result of
  the model is what the promise returned by the \<^verbatim>\<open>async\<close> method settles to.
\<close>

definition lookup :: "host \<Rightarrow> uri \<Rightarrow> bool \<Rightarrow> world \<Rightarrow> (fs_error + entry) \<times> world" where
  "lookup h u silent w =
     (if \<not> existsSync h (path u) then (Inl (FileNotFound (Some u)), w)
      else
        (let w1 = w\<lparr>opened := opened w @ [path u]\<rparr> in
         case Open_file h (path u) of
           Inl reason \<Rightarrow> (Inl (Rejected reason), w1)
         | Inr files \<Rightarrow>
             (case find (\<lambda>f. zip_path f = fragment u \<or>
                              zip_path f = ''src_archive/'' @ fragment u) files of
                None \<Rightarrow> (Inl (FileNotFound (Some u)), w1)
              | Some file \<Rightarrow>
                  (case buffer file of
                     Inl reason \<Rightarrow> (Inl (Rejected reason), w1)
                   | Inr b \<Rightarrow> (let (f, w2) = new_File h (fragment u) b w1 in (Inr f, w2))))))"

text \<open>\<^verbatim>\<open>stat(uri)\<close> awaits \<^verbatim>\<open>_lookup(uri, false)\<close> and returns the entry as the \<^verbatim>\<open>FileStat\<close>.\<close>

definition stat :: "host \<Rightarrow> uri \<Rightarrow> world \<Rightarrow> (fs_error + entry) \<times> world" where
  "stat h u w = lookup h u False w"

text \<open>
  What a JavaScript variable can hold where the source tests \<^verbatim>\<open>instanceof\<close>: an entry object,
  or the promise that an \<^verbatim>\<open>async\<close> method returned (with what it settles to). A promise is an
  instance of neither class.
\<close>

datatype js_value = Promise "fs_error + entry" | Object entry

fun instanceof_Directory :: "js_value \<Rightarrow> bool" where
  "instanceof_Directory (Object (Directory t c m s n es)) = True"
| "instanceof_Directory (Object (File t c m s n d)) = False"
| "instanceof_Directory (Promise r) = False"

fun instanceof_File :: "js_value \<Rightarrow> bool" where
  "instanceof_File (Object (File t c m s n d)) = True"
| "instanceof_File (Object (Directory t c m s n es)) = False"
| "instanceof_File (Promise r) = False"

text \<open>
  \<^verbatim>\<open>_lookupAsDirectory(uri, silent)\<close> is not \<^verbatim>\<open>async\<close> and does not await: \<^verbatim>\<open>let entry =
  this._lookup(uri, silent)\<close> binds the promise, and the test \<^verbatim>\<open>entry instanceof Directory\<close> is
  made on the promise. The lookup it started still runs (its effects on the world are those
  of \<open>lookup\<close>); its outcome is dropped.
\<close>

definition lookupAsDirectory ::
  "host \<Rightarrow> uri \<Rightarrow> bool \<Rightarrow> world \<Rightarrow> (fs_error + js_value) \<times> world" where
  "lookupAsDirectory h u silent w =
     (let (r, w') = lookup h u silent w; entry = Promise r in
      if instanceof_Directory entry then (Inr entry, w') else (Inl (FileNotADirectory u), w'))"

text \<open>\<^verbatim>\<open>_lookupAsFile(uri, silent)\<close> is \<^verbatim>\<open>async\<close> and awaits the lookup before the test
  \<^verbatim>\<open>entry instanceof File\<close>.\<close>

definition lookupAsFile ::
  "host \<Rightarrow> uri \<Rightarrow> bool \<Rightarrow> world \<Rightarrow> (fs_error + entry) \<times> world" where
  "lookupAsFile h u silent w =
     (case lookup h u silent w of
        (Inl e, w') \<Rightarrow> (Inl e, w')
      | (Inr entry, w') \<Rightarrow>
          if instanceof_File (Object entry) then (Inr entry, w')
          else (Inl (FileIsADirectory u), w'))"

text \<open>
  \<^verbatim>\<open>readDirectory(uri)\<close>: the loop \<^verbatim>\<open>for (const [name, child] of entry.entries)\<close> collects
  \<^verbatim>\<open>[name, child.type]\<close> for the entries of the directory, in their order; on a value with no
  \<^verbatim>\<open>entries\<close> the loop throws a \<^verbatim>\<open>TypeError\<close>.
\<close>

definition readDirectory ::
  "host \<Rightarrow> uri \<Rightarrow> world \<Rightarrow> (fs_error + (string \<times> file_type) list) \<times> world" where
  "readDirectory h u w =
     (case lookupAsDirectory h u False w of
        (Inl e, w') \<Rightarrow> (Inl e, w')
      | (Inr (Object (Directory t c m s n es)), w') \<Rightarrow>
          (Inr (map (\<lambda>(name, child). (name, type child)) es), w')
      | (Inr other, w') \<Rightarrow> (Inl TypeError, w'))"

text \<open>
  \<^verbatim>\<open>readFile(uri)\<close>: \<^verbatim>\<open>const data = (await this._lookupAsFile(uri, false)).data; if (data)
  return data; throw FileNotFound()\<close>. A \<^verbatim>\<open>Uint8Array\<close> is truthy whatever its length; only
  an object without \<^verbatim>\<open>data\<close> reaches the \<^verbatim>\<open>throw\<close>.
\<close>

definition readFile :: "host \<Rightarrow> uri \<Rightarrow> world \<Rightarrow> (fs_error + bytes) \<times> world" where
  "readFile h u w =
     (case lookupAsFile h u False w of
        (Inl e, w') \<Rightarrow> (Inl e, w')
      | (Inr (File t c m s n d), w') \<Rightarrow> (Inr d, w')
      | (Inr (Directory t c m s n es), w') \<Rightarrow> (Inl (FileNotFound None), w'))"

text \<open>A sequence of \<^verbatim>\<open>stat\<close> and \<^verbatim>\<open>readFile\<close> requests, each awaited before the next is made.\<close>

datatype request = Stat uri | ReadFile uri

fun serve :: "host \<Rightarrow> request \<Rightarrow> world \<Rightarrow> world" where
  "serve h (Stat u) w = snd (stat h u w)"
| "serve h (ReadFile u) w = snd (readFile h u w)"

fun request_uri :: "request \<Rightarrow> uri" where
  "request_uri (Stat u) = u"
| "request_uri (ReadFile u) = u"

definition serve_all :: "host \<Rightarrow> request list \<Rightarrow> world \<Rightarrow> world" where
  "serve_all h rs w = fold (serve h) rs w"

subsection \<open>The provider's own state: write operations and change events\<close>

text \<open>\<^verbatim>\<open>vscode.FileChangeType\<close> and \<^verbatim>\<open>vscode.FileChangeEvent\<close>.\<close>

datatype FileChangeType = Changed | Created | Deleted

record FileChangeEvent =
  change_type :: FileChangeType
  change_uri :: uri

type_synonym timer = nat

text \<open>
  The fields \<^verbatim>\<open>root\<close>, \<^verbatim>\<open>_bufferedEvents\<close> and \<^verbatim>\<open>_fireSoonHandle\<close>, and the part of the event
  loop the provider acts on: the timeouts that are scheduled and neither fired nor cleared
  (\<open>scheduled\<close>), the number of calls of \<^verbatim>\<open>setTimeout\<close> so far (\<open>timers_created\<close>; the n-th call
  returns the handle n - 1), and what \<^verbatim>\<open>_emitter.fire\<close> has been called with (\<open>emitted\<close>).
\<close>

record provider =
  root :: entry
  bufferedEvents :: "FileChangeEvent list"
  fireSoonHandle :: "timer option"
  scheduled :: "timer set"
  timers_created :: nat
  emitted :: "FileChangeEvent list list"

text \<open>The private field \<^verbatim>\<open>readOnlyError\<close>, initialised at construction and never assigned.\<close>

definition readOnlyError :: fs_error where
  "readOnlyError =
     NoPermissions ''write operation attempted, but source archive filesystem is readonly''"

definition new_provider :: "host \<Rightarrow> world \<Rightarrow> provider \<times> world" where
  "new_provider h w =
     (let (r, w') = new_Directory h [] w in
      (\<lparr>root = r, bufferedEvents = [], fireSoonHandle = None, scheduled = {},
        timers_created = 0, emitted = []\<rparr>, w'))"

text \<open>The write operations; each throws \<^verbatim>\<open>this.readOnlyError\<close> as its only statement.\<close>

record write_options =
  create :: bool
  overwrite :: bool

definition writeFile ::
  "provider \<Rightarrow> uri \<Rightarrow> bytes \<Rightarrow> write_options \<Rightarrow> (fs_error + unit) \<times> provider" where
  "writeFile p u content options = (Inl readOnlyError, p)"

definition rename :: "provider \<Rightarrow> uri \<Rightarrow> uri \<Rightarrow> bool \<Rightarrow> (fs_error + unit) \<times> provider" where
  "rename p oldUri newUri overwrite_option = (Inl readOnlyError, p)"

definition delete :: "provider \<Rightarrow> uri \<Rightarrow> (fs_error + unit) \<times> provider" where
  "delete p u = (Inl readOnlyError, p)"

definition createDirectory :: "provider \<Rightarrow> uri \<Rightarrow> (fs_error + unit) \<times> provider" where
  "createDirectory p u = (Inl readOnlyError, p)"

text \<open>
  \<^verbatim>\<open>_fireSoon(...events)\<close>: the events are pushed onto the buffer; if a handle is stored, that
  timeout is cleared (clearing one that has fired already does nothing); a new timeout is
  scheduled and its handle stored.
\<close>

definition fireSoon :: "FileChangeEvent list \<Rightarrow> provider \<Rightarrow> provider" where
  "fireSoon events p =
     (let p1 = p\<lparr>bufferedEvents := bufferedEvents p @ events\<rparr>;
          p2 = (case fireSoonHandle p1 of
                  Some h \<Rightarrow> p1\<lparr>scheduled := scheduled p1 - {h}\<rparr>
                | None \<Rightarrow> p1);
          h' = timers_created p2
      in p2\<lparr>fireSoonHandle := Some h', scheduled := insert h' (scheduled p2),
            timers_created := Suc h'\<rparr>)"

text \<open>
  The callback given to \<^verbatim>\<open>setTimeout\<close>, run when the timeout with handle \<open>h\<close> expires:
  \<^verbatim>\<open>this._emitter.fire(this._bufferedEvents); this._bufferedEvents.length = 0\<close>. A timeout that
  is not scheduled (never created, cleared, or fired before) does not run.
\<close>

definition timeout :: "timer \<Rightarrow> provider \<Rightarrow> provider" where
  "timeout h p =
     (if h \<in> scheduled p then
        p\<lparr>scheduled := scheduled p - {h}, emitted := emitted p @ [bufferedEvents p],
          bufferedEvents := []\<rparr>
      else p)"

datatype provider_event = FireSoon "FileChangeEvent list" | Timeout timer

fun provider_step :: "provider_event \<Rightarrow> provider \<Rightarrow> provider" where
  "provider_step (FireSoon events) p = fireSoon events p"
| "provider_step (Timeout h) p = timeout h p"

definition provider_run :: "provider_event list \<Rightarrow> provider \<Rightarrow> provider" where
  "provider_run evs p = fold provider_step evs p"

text \<open>At most the timeout whose handle is stored is scheduled, and the handle has been created.\<close>

definition timer_inv :: "provider \<Rightarrow> bool" where
  "timer_inv p \<longleftrightarrow>
     scheduled p \<subseteq> set_option (fireSoonHandle p) \<and>
     set_option (fireSoonHandle p) \<subseteq> {h. h < timers_created p}"

subsection \<open>A concrete host\<close>

text \<open>
  A disk that holds one archive, \<^verbatim>\<open>/db/project.zip\<close>, listing the single entry
  \<^verbatim>\<open>src_archive/main.c\<close> with the three bytes of \<^verbatim>\<open>int\<close>.
\<close>

definition project_zip :: host where
  "project_zip =
     \<lparr>existsSync = (\<lambda>p. p = ''/db/project.zip''),
      Open_file = (\<lambda>p. if p = ''/db/project.zip''
         then Inr [\<lparr>zip_path = ''src_archive/main.c'', buffer = Inr [105, 110, 116]\<rparr>]
         else Inl ''ENOENT''),
      Date_now = (\<lambda>n. 1000 + n)\<rparr>"

definition zip_uri :: "string \<Rightarrow> string \<Rightarrow> uri" where
  "zip_uri p f =
     \<lparr>scheme = ''codeql-zip-archive'', authority = [], path = p, query = [], fragment = f\<rparr>"

definition world0 :: world where
  "world0 = \<lparr>opened = [], clock_reads = 0\<rparr>"

definition change :: "string \<Rightarrow> FileChangeEvent" where
  "change f = \<lparr>change_type = Changed, change_uri = zip_uri ''/db/project.zip'' f\<rparr>"

section \<open>Properties of the cache\<close>

subsection \<open>The recency list\<close>

lemma findIndex_None: "findIndex t l = None \<longleftrightarrow> t \<notin> set l"
  by (induction l) auto

lemma findIndex_Some:
  "findIndex t l = Some i \<Longrightarrow> i < length l \<and> l ! i = t \<and> t \<notin> set (take i l)"
proof (induction l arbitrary: i)
  case Nil
  then show ?case by simp
next
  case (Cons v vs)
  show ?case
  proof (cases "v = t")
    case True
    with Cons.prems show ?thesis by simp
  next
    case False
    with Cons.prems obtain j where j: "findIndex t vs = Some j" "i = Suc j"
      by auto
    from Cons.IH [OF j(1)] j(2) False show ?thesis by simp
  qed
qed

lemma move_to_end_remove1:
  "t \<in> set l \<Longrightarrow> move_to_end t l = remove1 t l @ [t]"
proof -
  assume "t \<in> set l"
  then obtain i where i: "findIndex t l = Some i"
    using findIndex_None [of t l] by (cases "findIndex t l") auto
  from findIndex_Some [OF i] have b: "i < length l" "l ! i = t" "t \<notin> set (take i l)"
    by auto
  have "l = take i l @ t # drop (Suc i) l"
    using b(1,2) by (metis id_take_nth_drop)
  then have "remove1 t l = take i l @ drop (Suc i) l"
    using b(3) by (metis remove1.simps(2) remove1_append)
  with i b(2) show ?thesis by (simp add: move_to_end_def)
qed

lemma move_to_end_absent: "t \<notin> set l \<Longrightarrow> move_to_end t l = l"
  using findIndex_None [of t l] by (simp add: move_to_end_def)

lemma set_move_to_end: "set (move_to_end t l) = set l"
proof (cases "t \<in> set l")
  case True
  have "\<And>x. x \<in> set (remove1 t l) \<or> x = t \<longleftrightarrow> x \<in> set l"
    using True by (metis in_set_remove1 notin_set_remove1)
  with True show ?thesis by (auto simp: move_to_end_remove1)
next
  case False
  then show ?thesis by (simp add: move_to_end_absent)
qed

lemma distinct_move_to_end: "distinct l \<Longrightarrow> distinct (move_to_end t l)"
  by (cases "t \<in> set l") (auto simp: move_to_end_remove1 move_to_end_absent)

subsection \<open>The steps, case by case\<close>

lemma Map_get_Some: "Map_get m t = Some v \<longleftrightarrow> m t = Some (Some v)"
  by (simp add: Map_get_def split: option.splits)

lemma Map_get_None: "Map_get m t = None \<longleftrightarrow> m t = None \<or> m t = Some None"
  by (simp add: Map_get_def split: option.splits)

lemma Map_get_upd: "Map_get (m(k \<mapsto> v)) t = (if t = k then v else Map_get m t)"
  by (simp add: Map_get_def)

lemma Map_get_del: "Map_get m t = None \<Longrightarrow> Map_get (m(k := None)) t = None"
  by (simp add: Map_get_def)

lemma get_hit:
  "Map_get (cached s) t = Some v \<Longrightarrow>
   get t s = s\<lparr>next_call := Suc (next_call s), lru := move_to_end t (lru s),
              settled := (settled s)(next_call s \<mapsto> Inr (Some v))\<rparr>"
  by (simp add: get_def Let_def)

lemma get_wait:
  "Map_get (cached s) t = None \<Longrightarrow> inProgressCallbacks s t = Some a \<Longrightarrow>
   get t s = s\<lparr>next_call := Suc (next_call s),
              arrays := (arrays s)(a := arrays s a @ [next_call s])\<rparr>"
  by (simp add: get_def Let_def)

lemma get_miss:
  "Map_get (cached s) t = None \<Longrightarrow> inProgressCallbacks s t = None \<Longrightarrow>
   get t s = s\<lparr>next_call := Suc (next_call s),
              arrays := (arrays s)(next_call s := []),
              inProgressCallbacks := (inProgressCallbacks s)(t \<mapsto> next_call s),
              invoked := invoked s @ [t],
              awaiting := (awaiting s)(next_call s \<mapsto> t)\<rparr>"
  by (simp add: get_def Let_def)

lemma evict_lru:
  "lru (evict s) = (if int (length (lru s)) > cacheSize s then tl (lru s) else lru s)"
  by (simp add: evict_def split: list.splits)

lemma evict_cached:
  "cached (evict s) =
     (if int (length (lru s)) > cacheSize s \<and> lru s \<noteq> [] then (cached s)(hd (lru s) := None)
      else cached s)"
  by (simp add: evict_def split: list.splits)

lemma evict_subset:
  "dom (cached s) \<subseteq> set (lru s) \<Longrightarrow> dom (cached (evict s)) \<subseteq> set (lru (evict s))"
  by (auto simp: evict_def split: list.splits if_splits)

lemma evict_Map_get:
  "Map_get (cached s) t = None \<Longrightarrow> Map_get (cached (evict s)) t = None"
  by (simp add: evict_cached Map_get_del)

lemma evict_inv:
  "dom (cached s) = set (lru s) \<Longrightarrow> distinct (lru s) \<Longrightarrow>
   dom (cached (evict s)) = set (lru (evict s)) \<and> distinct (lru (evict s)) \<and>
   set (lru (evict s)) \<subseteq> set (lru s)"
  by (auto simp: evict_def split: list.splits)

lemma evict_undefined:
  "\<forall>t. cached s t \<noteq> Some None \<Longrightarrow> cached (evict s) t \<noteq> Some None"
  by (simp add: evict_cached)

lemma settle_idle: "awaiting s c = None \<Longrightarrow> settle c r s = s"
  by (simp add: settle_def)

lemma settle_Inl:
  "awaiting s c = Some t \<Longrightarrow>
   settle c (Inl err) s =
     s\<lparr>awaiting := (awaiting s)(c := None),
       settled := (forEach_settle (arrays s c) (Inl err) (settled s))(c \<mapsto> Inl err),
       inProgressCallbacks := (inProgressCallbacks s)(t := None)\<rparr>"
  by (simp add: settle_def Let_def)

lemma settle_Inr:
  "awaiting s c = Some t \<Longrightarrow>
   settle c (Inr v) s =
     s\<lparr>awaiting := (awaiting s)(c := None),
       settled := (forEach_settle (arrays s c) (Inr v) (settled s))(c \<mapsto> Inr v),
       inProgressCallbacks := (inProgressCallbacks s)(t := None),
       lru := lru (evict s) @ [t],
       cached := (cached (evict s))(t \<mapsto> v)\<rparr>"
  by (simp add: settle_def Let_def evict_def split: list.splits)

subsection \<open>The invariant of every run\<close>

lemma flight_inv_new: "flight_inv (new_cache n)"
  by (simp add: flight_inv_def new_cache_def)

lemma flight_inv_get:
  assumes "flight_inv s"
  shows "flight_inv (get t s)"
proof (cases "Map_get (cached s) t")
  case (Some v)
  show ?thesis
    unfolding get_hit [OF Some] flight_inv_def
    using assms by (auto simp: flight_inv_def set_move_to_end)
next
  case None
  show ?thesis
  proof (cases "inProgressCallbacks s t")
    case (Some a)
    show ?thesis
      unfolding get_wait [OF None Some] flight_inv_def
      using assms by (auto simp: flight_inv_def)
  next
    case miss: None
    have "\<And>a. awaiting s a \<noteq> Some t"
      using assms miss unfolding flight_inv_def by (metis option.distinct(1))
    then show ?thesis
      unfolding get_miss [OF None miss] flight_inv_def
      using assms miss None by (auto simp: flight_inv_def)
  qed
qed

lemma flight_inv_settle:
  assumes "flight_inv s"
  shows "flight_inv (settle c r s)"
proof (cases "awaiting s c")
  case None
  with assms show ?thesis by (simp add: settle_idle)
next
  case (Some t)
  from assms have sub: "dom (cached s) \<subseteq> set (lru s)"
    and link: "\<forall>t a. (inProgressCallbacks s t = Some a) = (awaiting s a = Some t)"
    and bound: "\<forall>c. next_call s \<le> c \<longrightarrow> awaiting s c = None"
    and und: "\<forall>t a. inProgressCallbacks s t = Some a \<longrightarrow> Map_get (cached s) t = None"
    unfolding flight_inv_def by blast+
  from link Some have reg: "inProgressCallbacks s t = Some c" by simp
  have link': "\<forall>t' a. (((inProgressCallbacks s)(t := None)) t' = Some a) =
      (((awaiting s)(c := None)) a = Some t')"
    using link Some reg by (metis fun_upd_apply option.distinct(1) option.inject)
  have bound': "\<forall>c'. next_call s \<le> c' \<longrightarrow> ((awaiting s)(c := None)) c' = None"
    using bound by simp
  show ?thesis
  proof (cases r)
    case (Inl err)
    have "\<forall>t' a. ((inProgressCallbacks s)(t := None)) t' = Some a \<longrightarrow>
        Map_get (cached s) t' = None"
      using und by (simp split: if_splits)
    then show ?thesis
      unfolding Inl settle_Inl [OF Some] flight_inv_def
      using sub link' bound' by simp
  next
    case (Inr v)
    have sub': "dom ((cached (evict s))(t \<mapsto> v)) \<subseteq> set (lru (evict s) @ [t])"
      using evict_subset [OF sub] by auto
    have "\<forall>t' a. ((inProgressCallbacks s)(t := None)) t' = Some a \<longrightarrow>
        Map_get ((cached (evict s))(t \<mapsto> v)) t' = None"
      using und by (simp add: Map_get_upd evict_Map_get split: if_splits)
    then show ?thesis
      unfolding Inr settle_Inr [OF Some] flight_inv_def
      using sub' link' bound' by simp
  qed
qed

lemma flight_inv_step: "flight_inv s \<Longrightarrow> flight_inv (step e s)"
  by (cases e) (simp_all add: flight_inv_get flight_inv_settle)

lemma flight_inv_run: "flight_inv s \<Longrightarrow> flight_inv (run es s)"
  unfolding run_def by (induction es arbitrary: s) (simp_all add: flight_inv_step)

lemma flight_inv_reachable: "flight_inv (run es (new_cache n))"
  by (simp add: flight_inv_run flight_inv_new)

lemma in_flight:
  assumes "flight_inv s" and "awaiting s c = Some t"
  shows "inProgressCallbacks s t = Some c" and "Map_get (cached s) t = None"
    and "c < next_call s"
proof -
  from assms show reg: "inProgressCallbacks s t = Some c"
    unfolding flight_inv_def by blast
  from assms(1) reg show "Map_get (cached s) t = None"
    unfolding flight_inv_def by blast
  from assms show "c < next_call s"
    unfolding flight_inv_def by (metis option.distinct(1) not_le_imp_less)
qed

subsection \<open>The invariant of the runs in which no production resolves to undefined\<close>

lemma defined_inv_new: "defined_inv (new_cache n)"
  by (simp add: defined_inv_def cache_inv_def new_cache_def)

lemma defined_inv_get:
  assumes "defined_inv s"
  shows "defined_inv (get t s)"
proof (cases "Map_get (cached s) t")
  case (Some v)
  show ?thesis
    unfolding get_hit [OF Some] defined_inv_def cache_inv_def
    using assms by (auto simp: defined_inv_def cache_inv_def set_move_to_end distinct_move_to_end)
next
  case None
  from assms have "cached s t \<noteq> Some None" unfolding defined_inv_def by blast
  with None have absent: "t \<notin> dom (cached s)" by (auto simp: Map_get_None)
  show ?thesis
  proof (cases "inProgressCallbacks s t")
    case (Some a)
    show ?thesis
      unfolding get_wait [OF None Some] defined_inv_def cache_inv_def
      using assms by (auto simp: defined_inv_def cache_inv_def)
  next
    case miss: None
    show ?thesis
      unfolding get_miss [OF None miss] defined_inv_def cache_inv_def
      using assms absent by (auto simp: defined_inv_def cache_inv_def)
  qed
qed

lemma defined_inv_settle:
  assumes "defined_inv s" and "flight_inv s" and "r \<noteq> Inr None"
  shows "defined_inv (settle c r s)"
proof (cases "awaiting s c")
  case None
  with assms show ?thesis by (simp add: settle_idle)
next
  case (Some t)
  from assms(1) have inv:
    "dom (cached s) = set (lru s)" "distinct (lru s)"
    "dom (cached s) \<inter> dom (inProgressCallbacks s) = {}"
    and def: "\<forall>t. cached s t \<noteq> Some None"
    unfolding defined_inv_def cache_inv_def by blast+
  from in_flight(1) [OF assms(2) Some] have reg: "inProgressCallbacks s t = Some c" .
  with inv(3) have fresh: "t \<notin> dom (cached s)" by blast
  with inv(1) have fresh_lru: "t \<notin> set (lru s)" by simp
  show ?thesis
  proof (cases r)
    case (Inl err)
    have "dom (cached s) \<inter> dom ((inProgressCallbacks s)(t := None)) = {}"
      using inv(3) by auto
    then show ?thesis
      unfolding Inl settle_Inl [OF Some] defined_inv_def cache_inv_def
      using inv(1,2) def by simp
  next
    case (Inr v)
    with assms(3) obtain x where v: "v = Some x" by (cases v) auto
    from evict_inv [OF inv(1,2)] have ev:
      "dom (cached (evict s)) = set (lru (evict s))" "distinct (lru (evict s))"
      "set (lru (evict s)) \<subseteq> set (lru s)"
      by auto
    from ev(3) fresh_lru have fresh': "t \<notin> set (lru (evict s))" by blast
    have "set (lru (evict s)) \<inter> dom (inProgressCallbacks s) = {}"
      using ev(3) inv(1,3) by blast
    then have disj:
      "insert t (set (lru (evict s))) \<inter> dom ((inProgressCallbacks s)(t := None)) = {}"
      by auto
    have def': "\<forall>t'. ((cached (evict s))(t \<mapsto> Some x)) t' \<noteq> Some None"
      using evict_undefined [OF def] by simp
    show ?thesis
      unfolding Inr v settle_Inr [OF Some] defined_inv_def cache_inv_def
      using ev(1,2) fresh' disj def' by simp
  qed
qed

lemma defined_event_settle: "defined_event (Settle c r) \<longleftrightarrow> r \<noteq> Inr None"
proof (cases r)
  case (Inl err)
  then show ?thesis by simp
next
  case (Inr v)
  then show ?thesis by (cases v) simp_all
qed

lemma defined_inv_step:
  "defined_inv s \<Longrightarrow> flight_inv s \<Longrightarrow> defined_event e \<Longrightarrow> defined_inv (step e s)"
  by (cases e) (simp_all add: defined_inv_get defined_inv_settle defined_event_settle)

lemma defined_inv_run:
  "defined_inv s \<Longrightarrow> flight_inv s \<Longrightarrow> \<forall>e \<in> set es. defined_event e \<Longrightarrow>
   defined_inv (run es s)"
  unfolding run_def
  by (induction es arbitrary: s) (simp_all add: defined_inv_step flight_inv_step)

subsection \<open>Settlements\<close>

lemma forEach_settle_in: "w \<in> set cbs \<Longrightarrow> forEach_settle cbs r m w = Some r"
  unfolding forEach_settle_def
proof (induction cbs arbitrary: m rule: rev_induct)
  case Nil
  then show ?case by simp
next
  case (snoc x xs)
  then show ?case by (cases "w = x") auto
qed

lemma settled_settle:
  assumes "awaiting s c = Some t" and "w \<in> insert c (set (arrays s c))"
  shows "settled (settle c r s) w = Some r"
proof (cases r)
  case (Inl err)
  show ?thesis
    unfolding Inl settle_Inl [OF assms(1)]
    using assms(2) by (auto simp: forEach_settle_in)
next
  case (Inr v)
  show ?thesis
    unfolding Inr settle_Inr [OF assms(1)]
    using assms(2) by (auto simp: forEach_settle_in)
qed

lemma invoked_settle: "invoked (settle c r s) = invoked s"
proof (cases "awaiting s c")
  case None
  then show ?thesis by (simp add: settle_idle)
next
  case (Some t)
  then show ?thesis by (cases r) (simp_all add: settle_Inl settle_Inr)
qed

lemma next_call_settle: "next_call (settle c r s) = next_call s"
proof (cases "awaiting s c")
  case None
  then show ?thesis by (simp add: settle_idle)
next
  case (Some t)
  then show ?thesis by (cases r) (simp_all add: settle_Inl settle_Inr)
qed

lemma arrays_settle: "arrays (settle c r s) = arrays s"
proof (cases "awaiting s c")
  case None
  then show ?thesis by (simp add: settle_idle)
next
  case (Some t)
  then show ?thesis by (cases r) (simp_all add: settle_Inl settle_Inr)
qed

lemma awaiting_settle_other: "a \<noteq> c \<Longrightarrow> awaiting (settle a r s) c = awaiting s c"
proof (cases "awaiting s a")
  case None
  then show ?thesis by (simp add: settle_idle)
next
  case (Some t)
  assume "a \<noteq> c"
  with Some show ?thesis by (cases r) (simp_all add: settle_Inl settle_Inr)
qed

lemma next_call_get: "next_call (get t s) = Suc (next_call s)"
  by (simp add: get_def Let_def split: option.splits)

subsection \<open>The window of a production\<close>

text \<open>One event inside the window in which call \<open>c0\<close> is suspended on the production of \<open>k\<close>.\<close>

lemma window_step:
  assumes inv: "flight_inv s" and own: "awaiting s c0 = Some k" and other: "\<not> settles c0 e"
  shows "awaiting (step e s) c0 = Some k \<and>
         count_list (invoked (step e s)) k = count_list (invoked s) k \<and>
         set (arrays s c0) \<union> set (calls_of k (next_call s) [e]) \<subseteq> set (arrays (step e s) c0)"
proof (cases e)
  case (Settle a r)
  with other have "a \<noteq> c0" by simp
  then show ?thesis
    unfolding Settle using own
    by (simp add: awaiting_settle_other invoked_settle arrays_settle)
next
  case (Get t)
  note reg = in_flight(1) [OF inv own]
  note nocache = in_flight(2) [OF inv own]
  from in_flight(3) [OF inv own] have old: "c0 \<noteq> next_call s" by simp
  show ?thesis
  proof (cases "t = k")
    case True
    show ?thesis
      unfolding Get True step.simps get_wait [OF nocache reg]
      using own by auto
  next
    case False
    show ?thesis
    proof (cases "Map_get (cached s) t")
      case (Some v)
      show ?thesis
        unfolding Get step.simps get_hit [OF Some]
        using own False by simp
    next
      case None
      show ?thesis
      proof (cases "inProgressCallbacks s t")
        case (Some a)
        show ?thesis
          unfolding Get step.simps get_wait [OF None Some]
          using own False by auto
      next
        case miss: None
        show ?thesis
          unfolding Get step.simps get_miss [OF None miss]
          using own False old by auto
      qed
    qed
  qed
qed

lemma next_call_step:
  "next_call (step e s) = (case e of Get t \<Rightarrow> Suc (next_call s) | Settle a r \<Rightarrow> next_call s)"
  by (cases e) (simp_all add: next_call_get next_call_settle)

lemma calls_of_Cons:
  "calls_of k c (e # es) =
     calls_of k c [e] @ calls_of k (case e of Get t \<Rightarrow> Suc c | Settle a r \<Rightarrow> c) es"
  by (cases e) simp_all

lemma window_run:
  assumes "flight_inv s" and "awaiting s c0 = Some k" and "\<forall>e \<in> set es. \<not> settles c0 e"
  shows "flight_inv (run es s) \<and> awaiting (run es s) c0 = Some k \<and>
         count_list (invoked (run es s)) k = count_list (invoked s) k \<and>
         set (arrays s c0) \<union> set (calls_of k (next_call s) es) \<subseteq> set (arrays (run es s) c0)"
  using assms
proof (induction es arbitrary: s)
  case Nil
  then show ?case by (simp add: run_def)
next
  case (Cons e es)
  from Cons.prems have e: "\<not> settles c0 e" and es: "\<forall>e \<in> set es. \<not> settles c0 e"
    by simp_all
  note st = window_step [OF Cons.prems(1,2) e]
  have inv': "flight_inv (step e s)" using Cons.prems(1) by (rule flight_inv_step)
  from st have own': "awaiting (step e s) c0 = Some k" by blast
  note ih = Cons.IH [OF inv' own' es]
  have r: "run (e # es) s = run es (step e s)" by (simp add: run_def)
  have "set (calls_of k (next_call s) (e # es)) =
        set (calls_of k (next_call s) [e]) \<union> set (calls_of k (next_call (step e s)) es)"
    by (subst calls_of_Cons) (simp add: next_call_step)
  with st ih show ?case unfolding r by auto
qed

lemma run_Cons: "run (e # es) s = run es (step e s)"
  by (simp add: run_def)

lemma run_snoc: "run (es @ [e]) s = step e (run es s)"
  by (simp add: run_def)

subsection \<open>Claims about the cache\<close>

lemma hit_key_listed:
  "Map_get (cached (run es (new_cache n))) t = Some v \<Longrightarrow> t \<in> set (lru (run es (new_cache n)))"
  using flight_inv_reachable [of es n] unfolding flight_inv_def
  by (auto simp: Map_get_Some)

text \<open>
  C10, as the code has it: after every step of every run that starts from a freshly
  constructed cache and in which no production resolves to \<^verbatim>\<open>undefined\<close> (so in particular after
  every completed \<^verbatim>\<open>get\<close> call of such a run), the keys of the value store are exactly the
  elements of the recency list, the recency list has no duplicates, and no key is both in
  the value store and in the in-flight callback map.
\<close>

theorem cache_invariant:
  assumes "\<forall>e \<in> set es. defined_event e"
  shows "cache_inv (run es (new_cache n))"
  using defined_inv_run [OF defined_inv_new flight_inv_new assms, of n]
  by (simp add: defined_inv_def)

text \<open>
  The theorem at a run with a hit, an eviction-free insertion, a failure and a production
  still in flight.
\<close>

theorem cache_invariant_witness:
  "defined_event (Get ''a'' :: (nat, string) event) \<and>
   defined_event (Settle 0 (Inr (Some 1)) :: (nat, string) event) \<and>
   defined_event (Settle 2 (Inl ''boom'') :: (nat, string) event) \<and>
   cache_inv (run [Get ''a'', Settle 0 (Inr (Some 1)), Get ''a'', Get ''b'',
                   Settle 2 (Inl ''boom''), Get ''c'']
                (new_cache 100 :: (nat, string) cached_operation)) \<and>
   lru (run [Get ''a'', Settle 0 (Inr (Some 1)), Get ''a'', Get ''b'',
                   Settle 2 (Inl ''boom''), Get ''c'']
                (new_cache 100 :: (nat, string) cached_operation)) = [''a'']"
proof -
  let ?es = "[Get ''a'', Settle 0 (Inr (Some 1)), Get ''a'', Get ''b'',
              Settle 2 (Inl ''boom''), Get ''c''] :: (nat, string) event list"
  have h: "\<forall>e \<in> set ?es. defined_event e" by simp
  have l: "lru (run ?es (new_cache 100)) = [''a'']"
    by (simp add: run_def new_cache_def get_def settle_def evict_def forEach_settle_def
        move_to_end_def Map_get_def Let_def)
  from cache_invariant [OF h, of 100] l show ?thesis by simp
qed

text \<open>
  C10 as stated fails when a production resolves to \<^verbatim>\<open>undefined\<close>: the key is stored, yet the
  next \<^verbatim>\<open>get\<close> of it reads \<^verbatim>\<open>undefined\<close> from the store and starts a second production, so the
  key is in the value store and in the in-flight map at once; when that production resolves
  the key is pushed on the recency list a second time.
\<close>

theorem undefined_value_breaks_invariant:
  "cached (run [Get ''a'', Settle 0 (Inr None), Get ''a'']
       (new_cache 100 :: (nat, unit) cached_operation)) ''a'' = Some None \<and>
   inProgressCallbacks (run [Get ''a'', Settle 0 (Inr None), Get ''a'']
       (new_cache 100 :: (nat, unit) cached_operation)) ''a'' = Some 1 \<and>
   \<not> cache_inv (run [Get ''a'', Settle 0 (Inr None), Get ''a'']
       (new_cache 100 :: (nat, unit) cached_operation)) \<and>
   lru (run [Get ''a'', Settle 0 (Inr None), Get ''a'', Settle 1 (Inr None)]
       (new_cache 100 :: (nat, unit) cached_operation)) = [''a'', ''a''] \<and>
   \<not> cache_inv (run [Get ''a'', Settle 0 (Inr None), Get ''a'', Settle 1 (Inr None)]
       (new_cache 100 :: (nat, unit) cached_operation))"
  by (simp add: cache_inv_def run_def new_cache_def get_def settle_def evict_def
      forEach_settle_def move_to_end_def Map_get_def Let_def)

text \<open>
  C2: with capacity 2, the sequential calls \<^verbatim>\<open>get("a")\<close>, \<^verbatim>\<open>get("b")\<close>, \<^verbatim>\<open>get("c")\<close>, each
  resolved (to a defined value) before the next, evict nothing: the guard
  \<^verbatim>\<open>lru.length > cacheSize\<close> is tested before the new key is pushed and is false with two keys
  listed. All three keys stay cached, and a fourth call \<^verbatim>\<open>get("a")\<close> is a hit that returns
  the memoized value without invoking the producer again.
\<close>

theorem capacity_two_keeps_three_keys:
  "lru (run [Get ''a'', Settle 0 (Inr (Some (1::nat))), Get ''b'', Settle 1 (Inr (Some 2)),
             Get ''c'', Settle 2 (Inr (Some 3))]
          (new_cache 2 :: (nat, unit) cached_operation))
     = [''a'', ''b'', ''c''] \<and>
   cached (run [Get ''a'', Settle 0 (Inr (Some (1::nat))), Get ''b'', Settle 1 (Inr (Some 2)),
             Get ''c'', Settle 2 (Inr (Some 3))]
          (new_cache 2 :: (nat, unit) cached_operation)) ''a''
     = Some (Some 1) \<and>
   invoked (run [Get ''a'', Settle 0 (Inr (Some (1::nat))), Get ''b'', Settle 1 (Inr (Some 2)),
             Get ''c'', Settle 2 (Inr (Some 3)), Get ''a'']
          (new_cache 2 :: (nat, unit) cached_operation))
     = [''a'', ''b'', ''c''] \<and>
   settled (run [Get ''a'', Settle 0 (Inr (Some (1::nat))), Get ''b'', Settle 1 (Inr (Some 2)),
             Get ''c'', Settle 2 (Inr (Some 3)), Get ''a'']
          (new_cache 2 :: (nat, unit) cached_operation)) 3
     = Some (Inr (Some 1))"
  by (simp add: run_def new_cache_def get_def settle_def evict_def forEach_settle_def
      move_to_end_def Map_get_def Let_def)

text \<open>
  C3: let \<open>k\<close> be a key for which, in a reachable state \<open>s\<close>, the store gives no defined value
  and no production is in flight, and let a call \<^verbatim>\<open>get(k)\<close> be followed by any events \<open>es\<close>
  (more calls for \<open>k\<close>, calls for other keys, settlements of other productions) before the
  production it started settles to \<open>r\<close>. Then the producer has been invoked for \<open>k\<close> exactly
  once more than before, and every one of the calls \<^verbatim>\<open>get(k)\<close>, the first and all those among
  \<open>es\<close>, has settled to the same outcome \<open>r\<close>, be it a value or a failure.
\<close>

theorem single_flight:
  assumes "s = run es0 (new_cache n)"
    and "Map_get (cached s) k = None" and "inProgressCallbacks s k = None"
    and "\<forall>e \<in> set es. \<not> settles (next_call s) e"
  shows "count_list (invoked (run (Get k # es @ [Settle (next_call s) r]) s)) k
           = Suc (count_list (invoked s) k) \<and>
         (\<forall>c \<in> set (calls_of k (next_call s) (Get k # es)).
            settled (run (Get k # es @ [Settle (next_call s) r]) s) c = Some r)"
proof -
  let ?c0 = "next_call s"
  let ?s1 = "get k s"
  let ?s2 = "run es ?s1"
  have inv: "flight_inv s" unfolding assms(1) by (rule flight_inv_reachable)
  have inv1: "flight_inv ?s1" using inv by (rule flight_inv_get)
  have s1: "awaiting ?s1 ?c0 = Some k" "next_call ?s1 = Suc ?c0"
    "invoked ?s1 = invoked s @ [k]"
    by (simp_all add: get_miss [OF assms(2,3)])
  have es: "\<forall>e \<in> set es. \<not> settles ?c0 e" using assms(4) .
  from window_run [OF inv1 s1(1) es]
  have own2: "awaiting ?s2 ?c0 = Some k"
    and cnt2: "count_list (invoked ?s2) k = count_list (invoked ?s1) k"
    and ws: "set (calls_of k (next_call ?s1) es) \<subseteq> set (arrays ?s2 ?c0)"
    by auto
  have final: "run (Get k # es @ [Settle ?c0 r]) s = settle ?c0 r ?s2"
    by (simp add: run_Cons run_snoc del: append_Cons flip: append_Cons)
  have "count_list (invoked (settle ?c0 r ?s2)) k = Suc (count_list (invoked s) k)"
    by (simp add: invoked_settle cnt2 s1(3))
  moreover have "settled (settle ?c0 r ?s2) c = Some r"
    if "c \<in> set (calls_of k ?c0 (Get k # es))" for c
  proof -
    from that ws s1(2) have "c \<in> insert ?c0 (set (arrays ?s2 ?c0))" by auto
    with own2 show ?thesis by (rule settled_settle)
  qed
  ultimately show ?thesis unfolding final by blast
qed

text \<open>
  The theorem at three concurrent calls \<^verbatim>\<open>get("a")\<close> (numbers 0, 1 and 3) with a call for
  another key between them: one invocation for \<^verbatim>\<open>"a"\<close>, and the three calls all resolve to 7.
\<close>

theorem single_flight_witness:
  "Map_get (cached (run [] (new_cache 100 :: (nat, unit) cached_operation))) ''a'' = None \<and>
   inProgressCallbacks (run [] (new_cache 100 :: (nat, unit) cached_operation)) ''a'' = None \<and>
   \<not> settles 0 (Get ''b'' :: (nat, unit) event) \<and>
   invoked (run [Get ''a'', Get ''a'', Get ''b'', Get ''a'', Settle 0 (Inr (Some 7))]
              (new_cache 100 :: (nat, unit) cached_operation)) = [''a'', ''b''] \<and>
   settled (run [Get ''a'', Get ''a'', Get ''b'', Get ''a'', Settle 0 (Inr (Some 7))]
              (new_cache 100 :: (nat, unit) cached_operation)) 0 = Some (Inr (Some 7)) \<and>
   settled (run [Get ''a'', Get ''a'', Get ''b'', Get ''a'', Settle 0 (Inr (Some 7))]
              (new_cache 100 :: (nat, unit) cached_operation)) 1 = Some (Inr (Some 7)) \<and>
   settled (run [Get ''a'', Get ''a'', Get ''b'', Get ''a'', Settle 0 (Inr (Some 7))]
              (new_cache 100 :: (nat, unit) cached_operation)) 3 = Some (Inr (Some 7))"
proof -
  let ?s = "run [] (new_cache 100 :: (nat, unit) cached_operation)"
  let ?es = "[Get ''a'', Get ''b'', Get ''a''] :: (nat, unit) event list"
  have h: "Map_get (cached ?s) ''a'' = None" "inProgressCallbacks ?s ''a'' = None"
    "next_call ?s = 0"
    by (simp_all add: run_def new_cache_def Map_get_def)
  have q: "\<forall>e \<in> set ?es. \<not> settles (next_call ?s) e" by simp
  have inv: "invoked (run [Get ''a'', Get ''a'', Get ''b'', Get ''a'', Settle 0 (Inr (Some 7))]
              (new_cache 100 :: (nat, unit) cached_operation)) = [''a'', ''b'']"
    by (simp add: run_def new_cache_def get_def settle_def evict_def Map_get_def Let_def)
  from single_flight [OF refl h(1,2) q, of "Inr (Some 7)"] h inv show ?thesis
    by (simp add: run_def numeral_3_eq_3)
qed

text \<open>
  C6: when the production for \<open>k\<close> started by call \<open>c\<close> fails with \<open>err\<close> in a reachable
  state, the call itself and every call waiting on its callbacks array settle to that
  failure, \<open>k\<close> is removed from the in-flight map and the call is no longer suspended, the
  value store and the recency list are unchanged (nothing is added for \<open>k\<close>) and the store
  gives no defined value for \<open>k\<close>, the cache does not invoke the producer again by itself,
  and the next \<^verbatim>\<open>get(k)\<close> invokes it again.
\<close>

theorem failed_production_not_cached:
  assumes "s = run es (new_cache n)" and "awaiting s c = Some k"
  shows "(\<forall>w \<in> insert c (set (arrays s c)). settled (settle c (Inl err) s) w = Some (Inl err)) \<and>
         inProgressCallbacks (settle c (Inl err) s) k = None \<and>
         awaiting (settle c (Inl err) s) c = None \<and>
         cached (settle c (Inl err) s) = cached s \<and>
         lru (settle c (Inl err) s) = lru s \<and>
         Map_get (cached (settle c (Inl err) s)) k = None \<and>
         invoked (settle c (Inl err) s) = invoked s \<and>
         invoked (get k (settle c (Inl err) s)) = invoked s @ [k]"
proof -
  let ?s' = "settle c (Inl err) s"
  have inv: "flight_inv s" unfolding assms(1) by (rule flight_inv_reachable)
  note nocache = in_flight(2) [OF inv assms(2)]
  have waiters: "\<forall>w \<in> insert c (set (arrays s c)). settled ?s' w = Some (Inl err)"
    using settled_settle [OF assms(2)] by blast
  have fields: "inProgressCallbacks ?s' k = None" "awaiting ?s' c = None"
    "cached ?s' = cached s" "lru ?s' = lru s" "invoked ?s' = invoked s"
    by (simp_all add: settle_Inl [OF assms(2)])
  have again: "invoked (get k ?s') = invoked ?s' @ [k]"
    using nocache fields(1,3) by (simp add: get_miss)
  from waiters fields again nocache show ?thesis
    by simp
qed

text \<open>The theorem at two calls \<^verbatim>\<open>get("a")\<close> whose shared production fails.\<close>

theorem failed_production_not_cached_witness:
  "awaiting (run [Get ''a'', Get ''a''] (new_cache 100 :: (nat, string) cached_operation)) 0
     = Some ''a'' \<and>
   settled (settle 0 (Inl ''boom'')
     (run [Get ''a'', Get ''a''] (new_cache 100 :: (nat, string) cached_operation))) 0
     = Some (Inl ''boom'') \<and>
   settled (settle 0 (Inl ''boom'')
     (run [Get ''a'', Get ''a''] (new_cache 100 :: (nat, string) cached_operation))) 1
     = Some (Inl ''boom'') \<and>
   inProgressCallbacks (settle 0 (Inl ''boom'')
     (run [Get ''a'', Get ''a''] (new_cache 100 :: (nat, string) cached_operation))) ''a'' = None \<and>
   cached (settle 0 (Inl ''boom'')
     (run [Get ''a'', Get ''a''] (new_cache 100 :: (nat, string) cached_operation))) ''a'' = None \<and>
   lru (settle 0 (Inl ''boom'')
     (run [Get ''a'', Get ''a''] (new_cache 100 :: (nat, string) cached_operation))) = [] \<and>
   invoked (get ''a'' (settle 0 (Inl ''boom'')
     (run [Get ''a'', Get ''a''] (new_cache 100 :: (nat, string) cached_operation))))
     = [''a'', ''a'']"
proof -
  let ?s = "run [Get ''a'', Get ''a''] (new_cache 100 :: (nat, string) cached_operation)"
  have h: "awaiting ?s 0 = Some ''a''"
    by (simp add: run_def new_cache_def get_def Map_get_def Let_def)
  have f: "arrays ?s 0 = [1]" "invoked ?s = [''a'']" "lru ?s = []" "cached ?s ''a'' = None"
    by (simp_all add: run_def new_cache_def get_def Map_get_def Let_def)
  from failed_production_not_cached [OF refl h, of "''boom''"] h f show ?thesis
    by simp
qed

text \<open>
  C7, as the code has it: in a reachable state, \<^verbatim>\<open>get(k)\<close> on a key stored with a defined
  value (a value other than \<^verbatim>\<open>undefined\<close>) resolves to the memoized value, does not invoke the
  producer, leaves the value store as it is and moves \<open>k\<close> to the end of the recency list
  (the most recently used position), the other keys keeping their order. Consequently a
  call \<^verbatim>\<open>get(k)\<close> that completes with a defined value, whether it started the production or
  waited on one in flight, followed by a second \<^verbatim>\<open>get(k)\<close>, makes the producer run at most
  once for the two calls: the second call is a hit that returns the value and leaves \<open>k\<close>
  most recently used.
\<close>

theorem get_memoized:
  assumes "s = run es (new_cache n)"
  shows "(cached s k = Some (Some v) \<longrightarrow>
            settled (get k s) (next_call s) = Some (Inr (Some v)) \<and>
            invoked (get k s) = invoked s \<and>
            cached (get k s) = cached s \<and>
            lru (get k s) = remove1 k (lru s) @ [k]) \<and>
         (Map_get (cached s) k = None \<longrightarrow> inProgressCallbacks s k = None \<longrightarrow>
            settled (get k (settle (next_call s) (Inr (Some v)) (get k s))) (Suc (next_call s))
              = Some (Inr (Some v)) \<and>
            invoked (get k (settle (next_call s) (Inr (Some v)) (get k s))) = invoked s @ [k] \<and>
            last (lru (get k (settle (next_call s) (Inr (Some v)) (get k s)))) = k) \<and>
         (Map_get (cached s) k = None \<longrightarrow> inProgressCallbacks s k = Some a \<longrightarrow>
            settled (get k (settle a (Inr (Some v)) (get k s))) (Suc (next_call s))
              = Some (Inr (Some v)) \<and>
            invoked (get k (settle a (Inr (Some v)) (get k s))) = invoked s \<and>
            last (lru (get k (settle a (Inr (Some v)) (get k s)))) = k)"
proof -
  have inv: "flight_inv s" unfolding assms(1) by (rule flight_inv_reachable)
  have after: "settled (get k (settle b (Inr (Some v)) s1)) (next_call s1) = Some (Inr (Some v)) \<and>
               invoked (get k (settle b (Inr (Some v)) s1)) = invoked s1 \<and>
               last (lru (get k (settle b (Inr (Some v)) s1))) = k"
    if "awaiting s1 b = Some k" for s1 :: "('a, 'b) cached_operation" and b
  proof -
    let ?s2 = "settle b (Inr (Some v)) s1"
    have c: "Map_get (cached ?s2) k = Some v" "next_call ?s2 = next_call s1"
      "invoked ?s2 = invoked s1"
      by (simp_all add: settle_Inr [OF that] Map_get_def)
    have "k \<in> set (lru ?s2)"
      by (simp add: settle_Inr [OF that])
    then show ?thesis
      by (simp add: get_hit [OF c(1)] c(2,3) move_to_end_remove1)
  qed
  have hit: ?thesis if "Map_get (cached s) k = Some v'" for v'
  proof -
    from that have c: "cached s k = Some (Some v')" by (simp add: Map_get_Some)
    from inv c have "k \<in> set (lru s)"
      unfolding flight_inv_def by auto
    then have "settled (get k s) (next_call s) = Some (Inr (Some v')) \<and>
        invoked (get k s) = invoked s \<and> cached (get k s) = cached s \<and>
        lru (get k s) = remove1 k (lru s) @ [k]"
      by (simp add: get_hit [OF that] move_to_end_remove1)
    with c that show ?thesis by simp
  qed
  have miss: ?thesis if n: "Map_get (cached s) k = None" and m: "inProgressCallbacks s k = None"
  proof -
    have s1: "awaiting (get k s) (next_call s) = Some k" "next_call (get k s) = Suc (next_call s)"
      "invoked (get k s) = invoked s @ [k]"
      by (simp_all add: get_miss [OF n m])
    from n have "cached s k \<noteq> Some (Some v)" by (auto simp: Map_get_None)
    with after [OF s1(1)] s1(2,3) n m show ?thesis by simp
  qed
  have wait: ?thesis
    if n: "Map_get (cached s) k = None" and m: "inProgressCallbacks s k = Some a'" for a'
  proof -
    from inv m have "awaiting s a' = Some k" unfolding flight_inv_def by blast
    then have s1: "awaiting (get k s) a' = Some k" "next_call (get k s) = Suc (next_call s)"
      "invoked (get k s) = invoked s"
      by (simp_all add: get_wait [OF n m])
    from n have "cached s k \<noteq> Some (Some v)" by (auto simp: Map_get_None)
    with after [OF s1(1)] s1(2,3) n m show ?thesis by auto
  qed
  show ?thesis
  proof (cases "Map_get (cached s) k")
    case (Some v')
    then show ?thesis by (rule hit)
  next
    case None
    show ?thesis
    proof (cases "inProgressCallbacks s k")
      case idle: None
      from None idle show ?thesis by (rule miss)
    next
      case (Some a')
      from None Some show ?thesis by (rule wait)
    qed
  qed
qed

text \<open>The theorem at a cached key, at a key that is absent, and at a key in production.\<close>

theorem get_memoized_witness:
  "cached (run [Get ''a'', Settle 0 (Inr (Some 5)), Get ''b'', Settle 1 (Inr (Some 6))]
      (new_cache 100 :: (nat, unit) cached_operation)) ''a'' = Some (Some 5) \<and>
   settled (get ''a'' (run [Get ''a'', Settle 0 (Inr (Some 5)), Get ''b'', Settle 1 (Inr (Some 6))]
      (new_cache 100 :: (nat, unit) cached_operation))) 2 = Some (Inr (Some 5)) \<and>
   invoked (get ''a'' (run [Get ''a'', Settle 0 (Inr (Some 5)), Get ''b'', Settle 1 (Inr (Some 6))]
      (new_cache 100 :: (nat, unit) cached_operation))) = [''a'', ''b''] \<and>
   lru (get ''a'' (run [Get ''a'', Settle 0 (Inr (Some 5)), Get ''b'', Settle 1 (Inr (Some 6))]
      (new_cache 100 :: (nat, unit) cached_operation))) = [''b'', ''a''] \<and>
   Map_get (cached (run [] (new_cache 100 :: (nat, unit) cached_operation))) ''a'' = None \<and>
   inProgressCallbacks (run [] (new_cache 100 :: (nat, unit) cached_operation)) ''a'' = None \<and>
   invoked (get ''a'' (settle 0 (Inr (Some 5)) (get ''a''
      (run [] (new_cache 100 :: (nat, unit) cached_operation))))) = [''a''] \<and>
   settled (get ''a'' (settle 0 (Inr (Some 5)) (get ''a''
      (run [] (new_cache 100 :: (nat, unit) cached_operation))))) 1 = Some (Inr (Some 5)) \<and>
   Map_get (cached (run [Get ''a''] (new_cache 100 :: (nat, unit) cached_operation))) ''a''
     = None \<and>
   inProgressCallbacks (run [Get ''a''] (new_cache 100 :: (nat, unit) cached_operation)) ''a''
     = Some 0 \<and>
   invoked (get ''a'' (settle 0 (Inr (Some 5)) (get ''a''
      (run [Get ''a''] (new_cache 100 :: (nat, unit) cached_operation))))) = [''a''] \<and>
   settled (get ''a'' (settle 0 (Inr (Some 5)) (get ''a''
      (run [Get ''a''] (new_cache 100 :: (nat, unit) cached_operation))))) 2
     = Some (Inr (Some 5))"
proof -
  let ?s1 = "run [Get ''a'', Settle 0 (Inr (Some 5)), Get ''b'', Settle 1 (Inr (Some 6))]
      (new_cache 100 :: (nat, unit) cached_operation)"
  let ?s2 = "run [] (new_cache 100 :: (nat, unit) cached_operation)"
  let ?s3 = "run [Get ''a''] (new_cache 100 :: (nat, unit) cached_operation)"
  have h1: "cached ?s1 ''a'' = Some (Some 5)" "next_call ?s1 = 2" "invoked ?s1 = [''a'', ''b'']"
    "lru ?s1 = [''a'', ''b'']"
    by (simp_all add: run_def new_cache_def get_def settle_def evict_def forEach_settle_def
        Map_get_def Let_def)
  have h2: "Map_get (cached ?s2) ''a'' = None" "inProgressCallbacks ?s2 ''a'' = None"
    "next_call ?s2 = 0" "invoked ?s2 = []"
    by (simp_all add: run_def new_cache_def Map_get_def)
  have h3: "Map_get (cached ?s3) ''a'' = None" "inProgressCallbacks ?s3 ''a'' = Some 0"
    "next_call ?s3 = 1" "invoked ?s3 = [''a'']"
    by (simp_all add: run_def new_cache_def get_def Map_get_def Let_def)
  note m = get_memoized [OF refl, where n = 100 and k = "''a''" and v = "5::nat" and a = 0]
  note m1 = m [where es = "[Get ''a'', Settle 0 (Inr (Some 5)), Get ''b'', Settle 1 (Inr (Some 6))]
      :: (nat, unit) event list", THEN conjunct1, rule_format, OF h1(1)]
  note m2 = m [where es = "[] :: (nat, unit) event list", THEN conjunct2, THEN conjunct1,
      rule_format, OF h2(1,2)]
  note m3 = m [where es = "[Get ''a''] :: (nat, unit) event list", THEN conjunct2,
      THEN conjunct2, rule_format, OF h3(1,2)]
  from m1 m2 m3 h1 h2 h3 show ?thesis by (simp add: numeral_2_eq_2)
qed

text \<open>
  C7 as stated fails for a key stored with the value \<^verbatim>\<open>undefined\<close>: the key is in the value
  store, yet \<^verbatim>\<open>get\<close> of it takes the miss path, invokes the producer a second time and
  returns nothing memoized (the call is left waiting for the new production).
\<close>

theorem stored_undefined_is_a_miss:
  "cached (run [Get ''a'', Settle 0 (Inr None)]
       (new_cache 100 :: (nat, unit) cached_operation)) ''a'' = Some None \<and>
   ''a'' \<in> dom (cached (run [Get ''a'', Settle 0 (Inr None)]
       (new_cache 100 :: (nat, unit) cached_operation))) \<and>
   invoked (run [Get ''a'', Settle 0 (Inr None)]
       (new_cache 100 :: (nat, unit) cached_operation)) = [''a''] \<and>
   invoked (get ''a'' (run [Get ''a'', Settle 0 (Inr None)]
       (new_cache 100 :: (nat, unit) cached_operation))) = [''a'', ''a''] \<and>
   settled (get ''a'' (run [Get ''a'', Settle 0 (Inr None)]
       (new_cache 100 :: (nat, unit) cached_operation))) 1 = None \<and>
   awaiting (get ''a'' (run [Get ''a'', Settle 0 (Inr None)]
       (new_cache 100 :: (nat, unit) cached_operation))) 1 = Some ''a''"
  by (simp add: run_def new_cache_def get_def settle_def evict_def forEach_settle_def
      Map_get_def Let_def)

section \<open>Properties of the provider\<close>

subsection \<open>Lookups\<close>

lemma opened_lookup:
  "opened (snd (lookup h u silent w)) =
     (if existsSync h (path u) then opened w @ [path u] else opened w)"
  by (simp add: lookup_def new_File_def Let_def split: sum.splits option.splits)

lemma opened_serve:
  "opened (serve h r w) =
     (if existsSync h (path (request_uri r)) then opened w @ [path (request_uri r)] else opened w)"
proof (cases r)
  case (Stat u)
  then show ?thesis by (simp add: stat_def opened_lookup)
next
  case (ReadFile u)
  have "opened (snd (readFile h u w)) = opened (snd (lookup h u False w))"
    by (simp add: readFile_def lookupAsFile_def split: prod.splits sum.splits entry.splits)
  with ReadFile show ?thesis by (simp add: opened_lookup)
qed

lemma readDirectory_fails: "fst (readDirectory h u w) = Inl (FileNotADirectory u)"
  by (simp add: readDirectory_def lookupAsDirectory_def split: prod.splits)

lemma readFile_found:
  assumes "existsSync h (path u)" and "Open_file h (path u) = Inr files"
    and "find (\<lambda>f. zip_path f = fragment u \<or> zip_path f = ''src_archive/'' @ fragment u) files
           = Some f"
    and "buffer f = Inr b"
  shows "fst (readFile h u w) = Inr b"
  using assms
  by (simp add: readFile_def lookupAsFile_def lookup_def new_File_def Let_def)

lemma find_cong_set: "(\<And>x. x \<in> set xs \<Longrightarrow> P x = Q x) \<Longrightarrow> find P xs = find Q xs"
  by (induction xs) auto

text \<open>
  C1, as the code has it: the resolver does not go through \<^verbatim>\<open>CachedOperation\<close>; every
  lookup against an existing archive path calls \<^verbatim>\<open>unzipper.Open.file\<close> itself. For every
  sequence of \<^verbatim>\<open>stat\<close> and \<^verbatim>\<open>readFile\<close> requests against the same existing archive path, the
  archive is opened and parsed once per request.
\<close>

theorem every_lookup_parses:
  assumes "existsSync h p" and "\<forall>r \<in> set rs. path (request_uri r) = p"
  shows "opened (serve_all h rs w) = opened w @ replicate (length rs) p"
  using assms(2) unfolding serve_all_def
proof (induction rs arbitrary: w)
  case Nil
  then show ?case by simp
next
  case (Cons r rs)
  from Cons.prems have r: "path (request_uri r) = p" and rs: "\<forall>r \<in> set rs. path (request_uri r) = p"
    by simp_all
  have "opened (serve h r w) = opened w @ [p]"
    using assms(1) r by (simp add: opened_serve)
  with Cons.IH [OF rs, of "serve h r w"] show ?case
    by (simp add: replicate_append_same)
qed

text \<open>
  The theorem at three requests against \<^verbatim>\<open>/db/project.zip\<close>.
\<close>

theorem every_lookup_parses_witness:
  "existsSync project_zip ''/db/project.zip'' \<and>
   opened (serve_all project_zip
      [Stat (zip_uri ''/db/project.zip'' ''main.c''),
       ReadFile (zip_uri ''/db/project.zip'' ''src_archive/main.c''),
       Stat (zip_uri ''/db/project.zip'' ''nothing'')] world0)
     = [''/db/project.zip'', ''/db/project.zip'', ''/db/project.zip'']"
proof -
  have h: "existsSync project_zip ''/db/project.zip''"
    by (simp add: project_zip_def)
  have q: "\<forall>r \<in> set [Stat (zip_uri ''/db/project.zip'' ''main.c''),
       ReadFile (zip_uri ''/db/project.zip'' ''src_archive/main.c''),
       Stat (zip_uri ''/db/project.zip'' ''nothing'')]. path (request_uri r) = ''/db/project.zip''"
    by (simp add: zip_uri_def)
  from every_lookup_parses [OF h q, of world0] h show ?thesis
    by (simp add: world0_def numeral_3_eq_3)
qed

text \<open>
  C1 as stated fails: two lookups against the same existing archive parse it twice, not
  once.
\<close>

theorem two_lookups_parse_twice:
  "existsSync project_zip ''/db/project.zip'' \<and>
   opened (serve_all project_zip
      [Stat (zip_uri ''/db/project.zip'' ''main.c''),
       ReadFile (zip_uri ''/db/project.zip'' ''main.c'')] world0)
     = [''/db/project.zip'', ''/db/project.zip''] \<and>
   length (opened (serve_all project_zip
      [Stat (zip_uri ''/db/project.zip'' ''main.c''),
       ReadFile (zip_uri ''/db/project.zip'' ''main.c'')] world0)) \<noteq> 1"
  by (simp add: serve_all_def stat_def readFile_def lookupAsFile_def lookup_def new_File_def
      project_zip_def zip_uri_def world0_def Let_def)

text \<open>
  What the comparison does resolve. The fragment is compared, by string equality, with the
  recorded path and with the recorded path after the prefix \<^verbatim>\<open>src_archive/\<close>. When the archive lists
  an entry \<^verbatim>\<open>src_archive/q\<close> whose bytes can be read, and lists neither \<^verbatim>\<open>q\<close> nor
  \<^verbatim>\<open>src_archive/src_archive/q\<close>, the requests with fragment \<^verbatim>\<open>q\<close> and with fragment
  \<^verbatim>\<open>src_archive/q\<close> both resolve, to the bytes of the first entry listed as
  \<^verbatim>\<open>src_archive/q\<close>.
\<close>

lemma dual_form_lookup:
  assumes "existsSync h a" and "Open_file h a = Inr files"
    and "path u1 = a" and "path u2 = a"
    and "fragment u1 = q" and "fragment u2 = ''src_archive/'' @ q"
    and "find (\<lambda>f. zip_path f = ''src_archive/'' @ q) files = Some f"
    and "buffer f = Inr b"
    and "\<forall>g \<in> set files. zip_path g \<noteq> q \<and> zip_path g \<noteq> ''src_archive/'' @ ''src_archive/'' @ q"
  shows "fst (readFile h u1 w) = Inr b \<and> fst (readFile h u2 w') = Inr b"
proof -
  have "find (\<lambda>g. zip_path g = fragment u1 \<or> zip_path g = ''src_archive/'' @ fragment u1) files
          = find (\<lambda>g. zip_path g = ''src_archive/'' @ q) files"
    using assms(5,9) by (intro find_cong_set) auto
  with assms(7)
  have f1: "find (\<lambda>g. zip_path g = fragment u1 \<or> zip_path g = ''src_archive/'' @ fragment u1) files
          = Some f" by simp
  have "find (\<lambda>g. zip_path g = fragment u2 \<or> zip_path g = ''src_archive/'' @ fragment u2) files
          = find (\<lambda>g. zip_path g = ''src_archive/'' @ q) files"
    using assms(6,9) by (intro find_cong_set) auto
  with assms(7)
  have f2: "find (\<lambda>g. zip_path g = fragment u2 \<or> zip_path g = ''src_archive/'' @ fragment u2) files
          = Some f" by simp
  from assms(1,2,3) have e1: "existsSync h (path u1)" "Open_file h (path u1) = Inr files"
    by simp_all
  from assms(1,2,4) have e2: "existsSync h (path u2)" "Open_file h (path u2) = Inr files"
    by simp_all
  from readFile_found [OF e1 f1 assms(8)] readFile_found [OF e2 f2 assms(8)]
  show ?thesis by simp
qed

text \<open>
  The lemma at the archive that lists \<^verbatim>\<open>src_archive/main.c\<close>, with the fragments
  \<^verbatim>\<open>main.c\<close> and \<^verbatim>\<open>src_archive/main.c\<close>, which have no leading slash.
\<close>

lemma dual_form_lookup_example:
  "existsSync project_zip ''/db/project.zip'' \<and>
   Open_file project_zip ''/db/project.zip''
     = Inr [\<lparr>zip_path = ''src_archive/main.c'', buffer = Inr [105, 110, 116]\<rparr>] \<and>
   fst (readFile project_zip (zip_uri ''/db/project.zip'' ''main.c'') world0)
     = Inr [105, 110, 116] \<and>
   fst (readFile project_zip (zip_uri ''/db/project.zip'' ''src_archive/main.c'') world0)
     = Inr [105, 110, 116]"
proof -
  let ?files = "[\<lparr>zip_path = ''src_archive/main.c'', buffer = Inr [105, 110, 116 :: 8 word]\<rparr>]"
  have h: "existsSync project_zip ''/db/project.zip''"
    "Open_file project_zip ''/db/project.zip'' = Inr ?files"
    by (simp_all add: project_zip_def)
  have u: "path (zip_uri ''/db/project.zip'' ''main.c'') = ''/db/project.zip''"
    "path (zip_uri ''/db/project.zip'' ''src_archive/main.c'') = ''/db/project.zip''"
    "fragment (zip_uri ''/db/project.zip'' ''main.c'') = ''main.c''"
    "fragment (zip_uri ''/db/project.zip'' ''src_archive/main.c'') = ''src_archive/'' @ ''main.c''"
    by (simp_all add: zip_uri_def)
  have f: "find (\<lambda>f. zip_path f = ''src_archive/'' @ ''main.c'') ?files
             = Some \<lparr>zip_path = ''src_archive/main.c'', buffer = Inr [105, 110, 116]\<rparr>"
    "buffer \<lparr>zip_path = ''src_archive/main.c'', buffer = Inr [105, 110, 116 :: 8 word]\<rparr>
       = Inr [105, 110, 116]"
    "\<forall>g \<in> set ?files. zip_path g \<noteq> ''main.c'' \<and>
        zip_path g \<noteq> ''src_archive/'' @ ''src_archive/'' @ ''main.c''"
    by simp_all
  from dual_form_lookup [OF h u f, of world0 world0] h show ?thesis by simp
qed

text \<open>
  C4: for the archive that lists the entry \<^verbatim>\<open>src_archive/main.c\<close>, the requests with the
  fragments \<^verbatim>\<open>/main.c\<close> and \<^verbatim>\<open>/src_archive/main.c\<close> both fail with \<^verbatim>\<open>FileNotFound\<close>, by
  \<^verbatim>\<open>readFile\<close> and by \<^verbatim>\<open>stat\<close>. The fragments carry the leading slash of the uri form that the
  source documents (\<^verbatim>\<open>...src_archive.zip#/home/alice/foobar/foobar.c\<close>); the recorded path is
  compared with the fragment and with \<^verbatim>\<open>'src_archive/' + uri.fragment\<close>, which is
  \<^verbatim>\<open>src_archive//main.c\<close> for the first request, with two slashes, and neither equals
  \<^verbatim>\<open>src_archive/main.c\<close>.
\<close>

theorem leading_slash_fragment_not_found:
  "Open_file project_zip ''/db/project.zip''
     = Inr [\<lparr>zip_path = ''src_archive/main.c'', buffer = Inr [105, 110, 116]\<rparr>] \<and>
   ''src_archive/'' @ fragment (zip_uri ''/db/project.zip'' ''/main.c'') = ''src_archive//main.c'' \<and>
   fst (readFile project_zip (zip_uri ''/db/project.zip'' ''/main.c'') world0)
     = Inl (FileNotFound (Some (zip_uri ''/db/project.zip'' ''/main.c''))) \<and>
   fst (readFile project_zip (zip_uri ''/db/project.zip'' ''/src_archive/main.c'') world0)
     = Inl (FileNotFound (Some (zip_uri ''/db/project.zip'' ''/src_archive/main.c''))) \<and>
   fst (stat project_zip (zip_uri ''/db/project.zip'' ''/main.c'') world0)
     = Inl (FileNotFound (Some (zip_uri ''/db/project.zip'' ''/main.c''))) \<and>
   fst (stat project_zip (zip_uri ''/db/project.zip'' ''/src_archive/main.c'') world0)
     = Inl (FileNotFound (Some (zip_uri ''/db/project.zip'' ''/src_archive/main.c'')))"
  by (simp add: readFile_def stat_def lookupAsFile_def lookup_def project_zip_def zip_uri_def
      Let_def)

text \<open>
  C5: \<^verbatim>\<open>readDirectory\<close> fails with \<^verbatim>\<open>FileNotADirectory\<close> on every uri (lemma
  \<open>readDirectory_fails\<close>), whatever the lookup finds: for an archive that is not on disk,
  where no entry is resolved and \<^verbatim>\<open>readFile\<close> reports \<^verbatim>\<open>FileNotFound\<close>, and for the prefix
  \<^verbatim>\<open>src_archive\<close> of a listed file.
\<close>

theorem readDirectory_missing_archive:
  "\<not> existsSync project_zip ''/db/missing.zip'' \<and>
   fst (readDirectory project_zip (zip_uri ''/db/missing.zip'' ''src'') world0)
     = Inl (FileNotADirectory (zip_uri ''/db/missing.zip'' ''src'')) \<and>
   fst (readFile project_zip (zip_uri ''/db/missing.zip'' ''src'') world0)
     = Inl (FileNotFound (Some (zip_uri ''/db/missing.zip'' ''src''))) \<and>
   fst (readDirectory project_zip (zip_uri ''/db/project.zip'' ''src_archive'') world0)
     = Inl (FileNotADirectory (zip_uri ''/db/project.zip'' ''src_archive''))"
  by (simp add: readDirectory_fails readFile_def lookupAsFile_def lookup_def project_zip_def
      zip_uri_def)

subsection \<open>Write operations\<close>

text \<open>
  C8: \<^verbatim>\<open>writeFile\<close>, \<^verbatim>\<open>rename\<close>, \<^verbatim>\<open>delete\<close> and \<^verbatim>\<open>createDirectory\<close> fail with the read-only
  error (\<^verbatim>\<open>NoPermissions\<close>) for every provider state and every argument, and leave the
  provider (its entry tree, its buffer of events, its timer handle) as it was.
\<close>

theorem write_operations_fail:
  "writeFile p u content options = (Inl readOnlyError, p) \<and>
   rename p oldUri newUri ov = (Inl readOnlyError, p) \<and>
   delete p u = (Inl readOnlyError, p) \<and>
   createDirectory p u = (Inl readOnlyError, p) \<and>
   readOnlyError = NoPermissions ''write operation attempted, but source archive filesystem is readonly''"
  by (simp add: writeFile_def rename_def delete_def createDirectory_def readOnlyError_def)

subsection \<open>Change events\<close>

lemma timer_inv_new: "timer_inv (fst (new_provider h w))"
  by (simp add: timer_inv_def new_provider_def split: prod.splits)

lemma fireSoon_fields:
  "bufferedEvents (fireSoon events p) = bufferedEvents p @ events"
  "fireSoonHandle (fireSoon events p) = Some (timers_created p)"
  "timers_created (fireSoon events p) = Suc (timers_created p)"
  "emitted (fireSoon events p) = emitted p"
  "root (fireSoon events p) = root p"
  by (simp_all add: fireSoon_def Let_def split: option.splits)

lemma scheduled_fireSoon:
  "timer_inv p \<Longrightarrow> scheduled (fireSoon events p) = {timers_created p}"
  by (auto simp: fireSoon_def timer_inv_def Let_def split: option.splits)

lemma timer_inv_fireSoon: "timer_inv p \<Longrightarrow> timer_inv (fireSoon events p)"
  by (simp add: timer_inv_def [of "fireSoon events p"] scheduled_fireSoon fireSoon_fields)

lemma timer_inv_timeout: "timer_inv p \<Longrightarrow> timer_inv (timeout h p)"
  by (auto simp: timer_inv_def timeout_def)

lemma timer_inv_step: "timer_inv p \<Longrightarrow> timer_inv (provider_step e p)"
  by (cases e) (simp_all add: timer_inv_fireSoon timer_inv_timeout)

lemma timer_inv_run: "timer_inv p \<Longrightarrow> timer_inv (provider_run evs p)"
  unfolding provider_run_def by (induction evs arbitrary: p) (simp_all add: timer_inv_step)

lemma burst:
  assumes "timer_inv p" and "bs \<noteq> []"
  shows "bufferedEvents (provider_run (map FireSoon bs) p) = bufferedEvents p @ concat bs \<and>
         timers_created (provider_run (map FireSoon bs) p) = timers_created p + length bs \<and>
         fireSoonHandle (provider_run (map FireSoon bs) p) = Some (timers_created p + length bs - 1) \<and>
         scheduled (provider_run (map FireSoon bs) p) = {timers_created p + length bs - 1} \<and>
         emitted (provider_run (map FireSoon bs) p) = emitted p"
  using assms
proof (induction bs arbitrary: p)
  case Nil
  then show ?case by simp
next
  case (Cons b bs)
  let ?p1 = "fireSoon b p"
  have r: "provider_run (map FireSoon (b # bs)) p = provider_run (map FireSoon bs) ?p1"
    by (simp add: provider_run_def)
  have inv1: "timer_inv ?p1" using Cons.prems(1) by (rule timer_inv_fireSoon)
  show ?case
  proof (cases "bs = []")
    case True
    then show ?thesis
      unfolding r using Cons.prems(1)
      by (simp add: provider_run_def fireSoon_fields scheduled_fireSoon)
  next
    case False
    from Cons.IH [OF inv1 False] show ?thesis
      unfolding r using False by (simp add: fireSoon_fields)
  qed
qed

text \<open>
  C9, as the code has it: in every state the provider reaches, every call of \<^verbatim>\<open>_fireSoon\<close>
  in a burst appends its records to the buffer, clears the scheduled timeout and schedules
  a new one, so that after the burst exactly one timeout is scheduled, the one created by
  the last call, and nothing has been emitted. When that timeout fires, the whole buffer is
  emitted as one batch and the buffer is cleared.
\<close>

theorem debounced_flush:
  assumes "p = provider_run evs (fst (new_provider h w))" and "bs \<noteq> []"
  shows "bufferedEvents (provider_run (map FireSoon bs) p) = bufferedEvents p @ concat bs \<and>
         timers_created (provider_run (map FireSoon bs) p) = timers_created p + length bs \<and>
         scheduled (provider_run (map FireSoon bs) p) = {timers_created p + length bs - 1} \<and>
         emitted (provider_run (map FireSoon bs) p) = emitted p \<and>
         emitted (provider_run (map FireSoon bs @ [Timeout (timers_created p + length bs - 1)]) p)
           = emitted p @ [bufferedEvents p @ concat bs] \<and>
         bufferedEvents (provider_run (map FireSoon bs @ [Timeout (timers_created p + length bs - 1)]) p)
           = [] \<and>
         scheduled (provider_run (map FireSoon bs @ [Timeout (timers_created p + length bs - 1)]) p)
           = {}"
proof -
  have inv: "timer_inv p"
    unfolding assms(1) by (rule timer_inv_run) (rule timer_inv_new)
  let ?p' = "provider_run (map FireSoon bs) p"
  let ?h = "timers_created p + length bs - 1"
  note b = burst [OF inv assms(2)]
  have r: "provider_run (map FireSoon bs @ [Timeout ?h]) p = timeout ?h ?p'"
    by (simp add: provider_run_def)
  from b have "?h \<in> scheduled ?p'" by simp
  then have "emitted (timeout ?h ?p') = emitted ?p' @ [bufferedEvents ?p']"
    "bufferedEvents (timeout ?h ?p') = []" "scheduled (timeout ?h ?p') = scheduled ?p' - {?h}"
    by (simp_all add: timeout_def)
  with b show ?thesis unfolding r by simp
qed

text \<open>
  The theorem at three records queued one after the other: one emission, holding all
  three.
\<close>

theorem debounced_flush_witness:
  "[[change ''a''], [change ''b''], [change ''c'']] \<noteq> [] \<and>
   emitted (provider_run [FireSoon [change ''a''], FireSoon [change ''b''],
      FireSoon [change ''c''], Timeout 2] (fst (new_provider project_zip world0)))
     = [[change ''a'', change ''b'', change ''c'']] \<and>
   bufferedEvents (provider_run [FireSoon [change ''a''], FireSoon [change ''b''],
      FireSoon [change ''c''], Timeout 2] (fst (new_provider project_zip world0))) = [] \<and>
   scheduled (provider_run [FireSoon [change ''a''], FireSoon [change ''b''],
      FireSoon [change ''c'']] (fst (new_provider project_zip world0))) = {2}"
proof -
  let ?p = "provider_run [] (fst (new_provider project_zip world0))"
  have h: "[[change ''a''], [change ''b''], [change ''c'']] \<noteq> []" by simp
  have p: "timers_created ?p = 0" "bufferedEvents ?p = []" "emitted ?p = []"
    by (simp_all add: provider_run_def new_provider_def new_Directory_def)
  from debounced_flush [OF refl h, of "[]" project_zip world0] p show ?thesis
    by (simp add: provider_run_def numeral_2_eq_2)
qed

text \<open>
  C9 as stated fails: the second record queued creates a second timer (handle 1 replaces
  handle 0, two timers have been created), and when the first timer's time comes nothing is
  emitted, since that timer was cleared.
\<close>

theorem second_record_replaces_timer:
  "fireSoonHandle (provider_run [FireSoon [change ''a'']] (fst (new_provider project_zip world0)))
     = Some 0 \<and>
   fireSoonHandle (provider_run [FireSoon [change ''a''], FireSoon [change ''b'']]
      (fst (new_provider project_zip world0))) = Some 1 \<and>
   timers_created (provider_run [FireSoon [change ''a''], FireSoon [change ''b'']]
      (fst (new_provider project_zip world0))) = 2 \<and>
   emitted (provider_run [FireSoon [change ''a''], FireSoon [change ''b''], Timeout 0]
      (fst (new_provider project_zip world0))) = [] \<and>
   bufferedEvents (provider_run [FireSoon [change ''a''], FireSoon [change ''b''], Timeout 0]
      (fst (new_provider project_zip world0))) = [change ''a'', change ''b'']"
  by (simp add: provider_run_def fireSoon_def timeout_def new_provider_def new_Directory_def
      Let_def)

end
